theory Spec2Isabelle
  imports Complex_Main "HOL-Library.Product_Lexorder" "HOL-Library.Multiset"
begin

section \<open>getnative: the resolution search engine of \<^verbatim>\<open>src/getnative/app.py\<close>\<close>

text \<open>
  Conventions of the embedding.
  \<^item> A finite Python or numpy float is a real number, and an operation on floats is the
    exact operation followed by the rounding \<open>round64\<close> of float64 (to the nearest value
    with a significand of 53 bits, ties to even). This is how the frame selector, the
    width refinement and the search compute. The exponent range is not bounded: overflow,
    subnormal numbers and the sign of zero are not modelled. The scheduler only carries
    the values, and the peak detector divides and compares them exactly. Where numpy turns
    a division by zero into \<^verbatim>\<open>inf\<close> or \<^verbatim>\<open>nan\<close> instead of raising, the values are
    kept apart from the finite ones (type \<open>npfloat\<close> below).
  \<^item> Every exception of the source is a value of \<open>error\<close>; a function that can
    raise returns \<open>error + 'a\<close>, with \<open>Inl\<close> for the exception.
  \<^item> The resampling oracle (descale, upscale, difference, crop, PlaneStats, frame
    request) is a parameter: a function giving the PlaneStatsAverage of a candidate.
    It is assumed to answer every request.
  \<^item> The report text, the plot and the files written are left out.
\<close>

datatype error =
    ValueError
  | IndexError
  | ZeroDivisionError
  | PermissionError
  | VapourSynthError
  | GetnativeException string

subsection \<open>The evaluation scheduler (\<^verbatim>\<open>GetNative.run\<close>, lines 180 to 196)\<close>

text \<open>
  A future is identified with the \<^verbatim>\<open>frame_index\<close> it was issued for, so the dictionary
  \<^verbatim>\<open>futures\<close> is the identity on \<^verbatim>\<open>tasks_pending\<close> and both have the same size: the
  number of requests issued and not yet collected. \<^verbatim>\<open>tasks_pending\<close> is a Python set;
  it is kept as a list without repetitions.

  Which requests have completed when \<^verbatim>\<open>asyncio.wait\<close> returns, and in which order the set
  \<^verbatim>\<open>tasks_done\<close> is iterated, is not determined by the program. A \<open>completion\<close>
  schedule resolves it: given the set waited for, it names the completed tasks in
  iteration order. Two waits of one scheduler run never wait for the same set, so a
  function of the set waited for expresses every behaviour. The names of a schedule are
  read so that every schedule is a legal behaviour of \<^verbatim>\<open>asyncio.wait\<close>: names that are
  not waited for are dropped, and repetitions too.
\<close>

type_synonym completion = "nat list \<Rightarrow> nat list"

definition named_done :: "completion \<Rightarrow> nat list \<Rightarrow> nat list" where
  "named_done ch fs = remdups (filter (\<lambda>t. t \<in> set fs) (ch fs))"

text \<open>
  \<^verbatim>\<open>asyncio.wait(fs, return_when=FIRST_COMPLETED)\<close>: raises ValueError on an empty
  set; otherwise it returns once at least one task is done, with all the tasks done by
  then and the rest. When the schedule names no task waited for, the first one is the
  one that completed (the oracle answers every request).
\<close>

definition asyncio_wait_first :: "completion \<Rightarrow> nat list \<Rightarrow> error + (nat list \<times> nat list)" where
  "asyncio_wait_first ch fs =
     (if fs = [] then Inl ValueError
      else let tasks_done = (if named_done ch fs = [] then [hd fs] else named_done ch fs)
           in Inr (tasks_done, filter (\<lambda>t. t \<notin> set tasks_done) fs))"

text \<open>
  \<^verbatim>\<open>asyncio.wait(fs)\<close> (ALL_COMPLETED): raises ValueError on an empty set; otherwise
  every task is done, iterated in the schedule's order (tasks it does not name last).
\<close>

definition asyncio_wait_all :: "completion \<Rightarrow> nat list \<Rightarrow> error + (nat list \<times> nat list)" where
  "asyncio_wait_all ch fs =
     (if fs = [] then Inl ValueError
      else Inr (named_done ch fs @ filter (\<lambda>t. t \<notin> set (named_done ch fs)) fs, []))"

text \<open>
  The scheduler's variables. \<open>in_flight_log\<close> is a history variable that the source
  does not have: the size of \<^verbatim>\<open>tasks_pending\<close> after each change of it, oldest first.
\<close>

record scheduler =
  tasks_pending :: "nat list"
  sched_vals :: "(nat \<times> real) list"
  in_flight_log :: "nat list"

definition collect :: "(nat \<Rightarrow> real) \<Rightarrow> nat list \<Rightarrow> (nat \<times> real) list" where
  "collect evaluate tasks_done = map (\<lambda>task. (task, evaluate task)) tasks_done"

text \<open>
  \<^verbatim>\<open>while len(tasks_pending) >= core.num_threads + 2:\<close> with its body; \<open>cap\<close> is
  \<^verbatim>\<open>core.num_threads + 2\<close>.
\<close>

function drain :: "nat \<Rightarrow> completion \<Rightarrow> (nat \<Rightarrow> real) \<Rightarrow> scheduler \<Rightarrow> error + scheduler" where
  "drain cap ch evaluate s =
     (if cap \<le> length (tasks_pending s) then
        (case asyncio_wait_first ch (tasks_pending s) of
           Inl e \<Rightarrow> Inl e
         | Inr (tasks_done, pending') \<Rightarrow>
             drain cap ch evaluate
               (s\<lparr>tasks_pending := pending',
                  sched_vals := sched_vals s @ collect evaluate tasks_done,
                  in_flight_log := in_flight_log s @ [length pending']\<rparr>))
      else Inr s)"
  by pat_completeness auto

lemma asyncio_wait_first_shrinks:
  assumes "asyncio_wait_first ch fs = Inr (tasks_done, pending')"
  shows "length pending' < length fs"
proof -
  from assms have ne: "fs \<noteq> []"
    by (auto simp: asyncio_wait_first_def split: if_splits)
  define d where "d = (if named_done ch fs = [] then [hd fs] else named_done ch fs)"
  from assms ne have p: "pending' = filter (\<lambda>t. t \<notin> set d) fs"
    by (auto simp: asyncio_wait_first_def d_def Let_def)
  have "\<exists>x \<in> set fs. x \<in> set d"
  proof (cases "named_done ch fs = []")
    case True
    with ne show ?thesis by (auto simp: d_def)
  next
    case False
    then obtain x where "x \<in> set (named_done ch fs)"
      by (cases "named_done ch fs") auto
    then show ?thesis using False by (auto simp: d_def named_done_def)
  qed
  then show ?thesis
    unfolding p by (metis (mono_tags, lifting) length_filter_less)
qed

termination drain
  by (relation "measure (\<lambda>(cap, ch, evaluate, s). length (tasks_pending s))")
     (auto dest: asyncio_wait_first_shrinks)

declare drain.simps [simp del]

text \<open>
  \<^verbatim>\<open>for frame_index in range(len(full_clip)):\<close> over the list of the range.
\<close>

fun issue_loop ::
  "nat \<Rightarrow> completion \<Rightarrow> (nat \<Rightarrow> real) \<Rightarrow> nat list \<Rightarrow> scheduler \<Rightarrow> error + scheduler" where
  "issue_loop num_threads ch evaluate [] s = Inr s"
| "issue_loop num_threads ch evaluate (frame_index # rest) s =
     (case drain (num_threads + 2) ch evaluate
             (s\<lparr>tasks_pending := tasks_pending s @ [frame_index],
                in_flight_log := in_flight_log s @ [length (tasks_pending s) + 1]\<rparr>) of
        Inl e \<Rightarrow> Inl e
      | Inr s' \<Rightarrow> issue_loop num_threads ch evaluate rest s')"

definition scheduler_init :: scheduler where
  "scheduler_init = \<lparr>tasks_pending = [], sched_vals = [], in_flight_log = [0]\<rparr>"

text \<open>
  Lines 180 to 195 for a clip of \<open>m\<close> candidates: the issue loop, the last wait, and
  \<^verbatim>\<open>[v for _, v in sorted(vals)]\<close> (pairs are compared lexicographically).
\<close>

definition evaluation_scheduler ::
  "nat \<Rightarrow> completion \<Rightarrow> (nat \<Rightarrow> real) \<Rightarrow> nat \<Rightarrow> error + real list" where
  "evaluation_scheduler num_threads ch evaluate m =
     (case issue_loop num_threads ch evaluate [0..<m] scheduler_init of
        Inl e \<Rightarrow> Inl e
      | Inr s \<Rightarrow>
          (case asyncio_wait_all ch (tasks_pending s) of
             Inl e \<Rightarrow> Inl e
           | Inr (tasks_done, _) \<Rightarrow>
               Inr (map snd (sort (sched_vals s @ collect evaluate tasks_done)))))"

subsection \<open>Properties of the evaluation scheduler\<close>

lemma mset_done_pending:
  assumes "distinct fs" "distinct d" "set d \<subseteq> set fs"
  shows "mset d + mset (filter (\<lambda>t. t \<notin> set d) fs) = mset fs"
proof -
  have "set d = set (filter (\<lambda>t. t \<in> set d) fs)" using assms(3) by auto
  moreover have "distinct (filter (\<lambda>t. t \<in> set d) fs)" using assms(1) by simp
  ultimately have "mset d = mset (filter (\<lambda>t. t \<in> set d) fs)"
    using assms(2) set_eq_iff_mset_eq_distinct by blast
  then show ?thesis by simp
qed

lemma asyncio_wait_first_mset:
  assumes "asyncio_wait_first ch fs = Inr (tasks_done, pending')" "distinct fs"
  shows "mset tasks_done + mset pending' = mset fs \<and> distinct pending' \<and> set pending' \<subseteq> set fs"
proof -
  from assms have ne: "fs \<noteq> []"
    by (auto simp: asyncio_wait_first_def split: if_splits)
  define d where "d = (if named_done ch fs = [] then [hd fs] else named_done ch fs)"
  from assms ne have p: "pending' = filter (\<lambda>t. t \<notin> set d) fs" and td: "tasks_done = d"
    by (auto simp: asyncio_wait_first_def d_def Let_def)
  have dd: "distinct d" "set d \<subseteq> set fs"
    using ne by (auto simp: d_def named_done_def)
  have "mset d + mset (filter (\<lambda>t. t \<notin> set d) fs) = mset fs"
    using mset_done_pending[OF assms(2) dd] .
  then show ?thesis using assms(2) by (auto simp: p td)
qed

lemma asyncio_wait_all_mset:
  assumes "fs \<noteq> []" "distinct fs"
  shows "\<exists>tasks_done p. asyncio_wait_all ch fs = Inr (tasks_done, p) \<and> mset tasks_done = mset fs"
proof -
  define d where "d = named_done ch fs"
  have dd: "distinct d" "set d \<subseteq> set fs"
    by (auto simp: d_def named_done_def)
  have "mset d + mset (filter (\<lambda>t. t \<notin> set d) fs) = mset fs"
    using mset_done_pending[OF assms(2) dd] .
  then show ?thesis using assms(1) by (simp add: asyncio_wait_all_def d_def)
qed

lemma drain_inv:
  assumes "0 < cap" "distinct (tasks_pending s)"
  shows "\<exists>s'. drain cap ch evaluate s = Inr s' \<and> distinct (tasks_pending s')
           \<and> length (tasks_pending s') < cap
           \<and> set (tasks_pending s') \<subseteq> set (tasks_pending s)
           \<and> mset (sched_vals s' @ collect evaluate (tasks_pending s'))
               = mset (sched_vals s @ collect evaluate (tasks_pending s))
           \<and> (\<forall>k \<in> set (in_flight_log s'). k \<in> set (in_flight_log s) \<or> k \<le> length (tasks_pending s))"
  using assms
proof (induction cap ch evaluate s rule: drain.induct)
  case (1 cap ch evaluate s)
  show ?case
  proof (cases "cap \<le> length (tasks_pending s)")
    case False
    then show ?thesis using "1.prems" by (subst drain.simps) simp
  next
    case True
    with "1.prems" have ne: "tasks_pending s \<noteq> []" by auto
    then obtain tasks_done pending' where w: "asyncio_wait_first ch (tasks_pending s) = Inr (tasks_done, pending')"
      by (auto simp: asyncio_wait_first_def Let_def)
    let ?s1 = "s\<lparr>tasks_pending := pending',
                  sched_vals := sched_vals s @ collect evaluate tasks_done,
                  in_flight_log := in_flight_log s @ [length pending']\<rparr>"
    from asyncio_wait_first_mset[OF w "1.prems"(2)]
    have m: "mset tasks_done + mset pending' = mset (tasks_pending s)" and dp: "distinct pending'"
      and sub: "set pending' \<subseteq> set (tasks_pending s)" by auto
    from asyncio_wait_first_shrinks[OF w] have len: "length pending' < length (tasks_pending s)" .
    from "1.IH"[OF True w refl "1.prems"(1)] dp
    obtain s' where s': "drain cap ch evaluate ?s1 = Inr s'" "distinct (tasks_pending s')"
       "length (tasks_pending s') < cap" "set (tasks_pending s') \<subseteq> set pending'"
       "mset (sched_vals s' @ collect evaluate (tasks_pending s'))
               = mset (sched_vals ?s1 @ collect evaluate (tasks_pending ?s1))"
       "\<forall>k \<in> set (in_flight_log s'). k \<in> set (in_flight_log ?s1) \<or> k \<le> length (tasks_pending ?s1)"
      by auto
    have eq: "drain cap ch evaluate s = Inr s'"
      by (subst drain.simps) (simp add: True w s'(1))
    have "mset (collect evaluate tasks_done) + mset (collect evaluate pending') = mset (collect evaluate (tasks_pending s))"
      unfolding collect_def using m by (metis image_mset_union mset_map)
    then have ms: "mset (sched_vals ?s1 @ collect evaluate (tasks_pending ?s1)) = mset (sched_vals s @ collect evaluate (tasks_pending s))"
      by simp
    have lg: "\<forall>k \<in> set (in_flight_log s'). k \<in> set (in_flight_log s) \<or> k \<le> length (tasks_pending s)"
      using s'(6) len by auto
    show ?thesis using eq s'(2,3,4) sub ms s'(5) lg by auto
  qed
qed


lemma issue_loop_inv:
  assumes "distinct (tasks_pending s)" "length (tasks_pending s) < n + 2"
    "set xs \<inter> set (tasks_pending s) = {}" "distinct xs"
  shows "\<exists>s'. issue_loop n ch evaluate xs s = Inr s' \<and> distinct (tasks_pending s')
           \<and> length (tasks_pending s') < n + 2
           \<and> set (tasks_pending s') \<subseteq> set (tasks_pending s) \<union> set xs
           \<and> mset (sched_vals s' @ collect evaluate (tasks_pending s'))
               = mset (sched_vals s @ collect evaluate (tasks_pending s)) + mset (collect evaluate xs)
           \<and> (\<forall>k \<in> set (in_flight_log s'). k \<in> set (in_flight_log s) \<or> k \<le> n + 2)"
  using assms
proof (induction xs arbitrary: s)
  case Nil
  then show ?case by (simp add: collect_def)
next
  case (Cons x xs)
  let ?s1 = "s\<lparr>tasks_pending := tasks_pending s @ [x],
                in_flight_log := in_flight_log s @ [length (tasks_pending s) + 1]\<rparr>"
  have d1: "distinct (tasks_pending ?s1)" using Cons.prems by auto
  from drain_inv[of "n + 2" ?s1 ch evaluate, OF _ d1]
  obtain s2 where s2: "drain (n + 2) ch evaluate ?s1 = Inr s2" "distinct (tasks_pending s2)"
      "length (tasks_pending s2) < n + 2" "set (tasks_pending s2) \<subseteq> set (tasks_pending ?s1)"
      "mset (sched_vals s2 @ collect evaluate (tasks_pending s2))
         = mset (sched_vals ?s1 @ collect evaluate (tasks_pending ?s1))"
      "\<forall>k \<in> set (in_flight_log s2). k \<in> set (in_flight_log ?s1) \<or> k \<le> length (tasks_pending ?s1)"
    by auto
  have disj: "set xs \<inter> set (tasks_pending s2) = {}"
    using s2(4) Cons.prems(3,4) by auto
  from Cons.IH[OF s2(2) s2(3) disj] Cons.prems(4)
  obtain s' where s': "issue_loop n ch evaluate xs s2 = Inr s'" "distinct (tasks_pending s')"
      "length (tasks_pending s') < n + 2"
      "set (tasks_pending s') \<subseteq> set (tasks_pending s2) \<union> set xs"
      "mset (sched_vals s' @ collect evaluate (tasks_pending s'))
         = mset (sched_vals s2 @ collect evaluate (tasks_pending s2)) + mset (collect evaluate xs)"
      "\<forall>k \<in> set (in_flight_log s'). k \<in> set (in_flight_log s2) \<or> k \<le> n + 2"
    by auto
  have eq: "issue_loop n ch evaluate (x # xs) s = Inr s'"
    using s2(1) s'(1) by simp
  have sub: "set (tasks_pending s') \<subseteq> set (tasks_pending s) \<union> set (x # xs)"
    using s'(4) s2(4) by auto
  have ms: "mset (sched_vals s' @ collect evaluate (tasks_pending s'))
      = mset (sched_vals s @ collect evaluate (tasks_pending s)) + mset (collect evaluate (x # xs))"
    using s'(5) s2(5) by (simp add: collect_def)
  have lg: "\<forall>k \<in> set (in_flight_log s'). k \<in> set (in_flight_log s) \<or> k \<le> n + 2"
  proof
    fix k assume "k \<in> set (in_flight_log s')"
    with s'(6) have "k \<in> set (in_flight_log s2) \<or> k \<le> n + 2" by blast
    then show "k \<in> set (in_flight_log s) \<or> k \<le> n + 2"
    proof
      assume "k \<in> set (in_flight_log s2)"
      with s2(6) have "k \<in> set (in_flight_log ?s1) \<or> k \<le> length (tasks_pending ?s1)" by blast
      then show ?thesis using Cons.prems(2) by auto
    qed simp
  qed
  show ?case using eq s'(2,3) sub ms lg by blast
qed

lemma sorted_collect_upt: "sorted (collect evaluate [i..<j])"
  unfolding collect_def
  by (rule sorted_wrt_mono_rel[where P="\<lambda>a b. fst a < fst b"])
     (auto simp: less_eq_prod_def sorted_wrt_map intro: sorted_wrt_mono_rel[OF _ sorted_wrt_upt])

lemma issue_loop_upt:
  "\<exists>s. issue_loop n ch evaluate [0..<m] scheduler_init = Inr s \<and> distinct (tasks_pending s)
     \<and> mset (sched_vals s @ collect evaluate (tasks_pending s)) = mset (collect evaluate [0..<m])
     \<and> (\<forall>k \<in> set (in_flight_log s). k \<le> n + 2)"
  using issue_loop_inv[of scheduler_init n "[0..<m]" ch evaluate]
  by (auto simp: scheduler_init_def collect_def)

lemma evaluation_scheduler_result:
  "evaluation_scheduler n ch evaluate m = Inl ValueError \<or>
   evaluation_scheduler n ch evaluate m = Inr (map evaluate [0..<m])"
proof -
  from issue_loop_upt[of n ch evaluate m]
  obtain s where s: "issue_loop n ch evaluate [0..<m] scheduler_init = Inr s" "distinct (tasks_pending s)"
     "mset (sched_vals s @ collect evaluate (tasks_pending s)) = mset (collect evaluate [0..<m])"
    by blast
  show ?thesis
  proof (cases "tasks_pending s = []")
    case True
    then show ?thesis using s(1) by (simp add: evaluation_scheduler_def asyncio_wait_all_def)
  next
    case False
    from asyncio_wait_all_mset[OF False s(2), of ch]
    obtain tasks_done p where w: "asyncio_wait_all ch (tasks_pending s) = Inr (tasks_done, p)"
       "mset tasks_done = mset (tasks_pending s)" by blast
    have "mset (collect evaluate tasks_done) = mset (collect evaluate (tasks_pending s))"
      unfolding collect_def using w(2) by (metis mset_map)
    with s(3) have "mset (collect evaluate [0..<m]) = mset (sched_vals s @ collect evaluate tasks_done)"
      by simp
    from properties_for_sort[OF this sorted_collect_upt]
    have "sort (sched_vals s @ collect evaluate tasks_done) = collect evaluate [0..<m]" .
    then have "evaluation_scheduler n ch evaluate m = Inr (map snd (collect evaluate [0..<m]))"
      using s(1) w(1) by (simp add: evaluation_scheduler_def)
    then show ?thesis by (simp add: collect_def comp_def)
  qed
qed

text \<open>
  With a schedule under which every FIRST_COMPLETED wait reports at most one task, some
  request is still pending after the issue loop, so the last wait has a set to wait for.
\<close>

lemma asyncio_wait_first_single:
  assumes "asyncio_wait_first ch fs = Inr (tasks_done, pending')" "distinct fs"
    "length (named_done ch fs) \<le> 1"
  shows "length pending' + 1 = length fs"
proof -
  from assms(1) have ne: "fs \<noteq> []"
    by (auto simp: asyncio_wait_first_def split: if_splits)
  have l1: "length tasks_done = 1"
  proof (cases "named_done ch fs = []")
    case True
    with assms(1) ne have "tasks_done = [hd fs]"
      by (auto simp: asyncio_wait_first_def Let_def)
    then show ?thesis by simp
  next
    case False
    with assms(1) ne have "tasks_done = named_done ch fs"
      by (auto simp: asyncio_wait_first_def Let_def)
    then show ?thesis using assms(3) False by (cases "named_done ch fs") auto
  qed
  from asyncio_wait_first_mset[OF assms(1,2)]
  have "size (mset tasks_done + mset pending') = size (mset fs)" by simp
  with l1 show ?thesis by simp
qed

lemma drain_single_nonempty:
  assumes "\<forall>fs. length (named_done ch fs) \<le> 1" "distinct (tasks_pending s)"
    "tasks_pending s \<noteq> []" "2 \<le> cap" "drain cap ch evaluate s = Inr s'"
  shows "tasks_pending s' \<noteq> []"
  using assms
proof (induction cap ch evaluate s rule: drain.induct)
  case (1 cap ch evaluate s)
  show ?case
  proof (cases "cap \<le> length (tasks_pending s)")
    case False
    with "1.prems" show ?thesis by (subst (asm) drain.simps) simp
  next
    case True
    with "1.prems" obtain tasks_done pending' where
      w: "asyncio_wait_first ch (tasks_pending s) = Inr (tasks_done, pending')"
      by (auto simp: asyncio_wait_first_def Let_def)
    let ?s1 = "s\<lparr>tasks_pending := pending',
                  sched_vals := sched_vals s @ collect evaluate tasks_done,
                  in_flight_log := in_flight_log s @ [length pending']\<rparr>"
    from asyncio_wait_first_single[OF w "1.prems"(2)] "1.prems"(1)
    have len: "length pending' + 1 = length (tasks_pending s)" by blast
    with True "1.prems"(4) have ne: "pending' \<noteq> []" by auto
    from asyncio_wait_first_mset[OF w "1.prems"(2)] have dp: "distinct pending'" by simp
    have step: "drain cap ch evaluate ?s1 = Inr s'"
      using "1.prems"(5) True w by (subst (asm) drain.simps) simp
    from "1.IH"[OF True w refl "1.prems"(1)] dp ne "1.prems"(4) step
    show ?thesis by simp
  qed
qed

lemma issue_loop_single_nonempty:
  assumes "\<forall>fs. length (named_done ch fs) \<le> 1" "distinct (tasks_pending s)"
    "set xs \<inter> set (tasks_pending s) = {}" "distinct xs"
    "xs \<noteq> [] \<or> tasks_pending s \<noteq> []"
    "issue_loop n ch evaluate xs s = Inr s'"
  shows "tasks_pending s' \<noteq> []"
  using assms
proof (induction xs arbitrary: s)
  case Nil
  then show ?case by simp
next
  case (Cons x xs)
  let ?s1 = "s\<lparr>tasks_pending := tasks_pending s @ [x],
                in_flight_log := in_flight_log s @ [length (tasks_pending s) + 1]\<rparr>"
  have d1: "distinct (tasks_pending ?s1)" using Cons.prems by auto
  from drain_inv[of "n + 2" ?s1 ch evaluate, OF _ d1]
  obtain s2 where s2: "drain (n + 2) ch evaluate ?s1 = Inr s2" "distinct (tasks_pending s2)"
      "set (tasks_pending s2) \<subseteq> set (tasks_pending ?s1)"
    by auto
  have ne2: "tasks_pending s2 \<noteq> []"
    using drain_single_nonempty[OF Cons.prems(1) d1 _ _ s2(1)] by simp
  have disj: "set xs \<inter> set (tasks_pending s2) = {}"
    using s2(3) Cons.prems(3,4) by auto
  have "issue_loop n ch evaluate xs s2 = Inr s'"
    using Cons.prems(6) s2(1) by simp
  from Cons.IH[OF Cons.prems(1) s2(2) disj _ _ this] Cons.prems(4) ne2
  show ?case by simp
qed

lemma evaluation_scheduler_single:
  assumes "\<forall>fs. length (named_done ch fs) \<le> 1" "0 < m"
  shows "evaluation_scheduler n ch evaluate m = Inr (map evaluate [0..<m])"
proof -
  from issue_loop_upt[of n ch evaluate m]
  obtain s where s: "issue_loop n ch evaluate [0..<m] scheduler_init = Inr s" by blast
  have "tasks_pending s \<noteq> []"
    using issue_loop_single_nonempty[OF assms(1) _ _ _ _ s] assms(2)
    by (simp add: scheduler_init_def)
  then have "evaluation_scheduler n ch evaluate m \<noteq> Inl ValueError"
    using s by (auto simp: evaluation_scheduler_def asyncio_wait_all_def)
  with evaluation_scheduler_result[of n ch evaluate m] show ?thesis by simp
qed

text \<open>
  Claim C1. The scheduler is to return, for every list of \<open>m\<close> candidates and every
  completion order, the curve whose element \<open>i\<close> is the oracle's value for candidate
  \<open>i\<close>. By \<open>evaluation_scheduler_result\<close> the curve is that one whenever the scheduler
  returns. It does not always return: with one worker thread (cap 3) and three candidates,
  when the three requests in flight have all completed by the time the first wait
  returns, \<^verbatim>\<open>tasks_pending\<close> is left empty, the loop ends, and the last
  \<^verbatim>\<open>asyncio.wait(tasks_pending)\<close> raises ValueError on the empty set.
\<close>

theorem scheduler_last_wait_on_empty_set:
  "evaluation_scheduler 1 (\<lambda>fs. fs) evaluate 3 = Inl ValueError"
  by (simp add: evaluation_scheduler_def scheduler_init_def upt_rec drain.simps
        asyncio_wait_first_def asyncio_wait_all_def named_done_def collect_def Let_def)

text \<open>
  Claim C6. While the scheduler processes a candidate list, the number of requests in
  flight (issued and not yet collected) never exceeds \<^verbatim>\<open>core.num_threads + 2\<close>: the issue
  loop always runs to its end, and every size that \<^verbatim>\<open>tasks_pending\<close> took on the way, after
  each issue and after each drain step, is at most the cap.
\<close>

theorem in_flight_never_exceeds_cap:
  "\<exists>s. issue_loop num_threads ch evaluate [0..<m] scheduler_init = Inr s
       \<and> list_all (\<lambda>k. k \<le> num_threads + 2) (in_flight_log s)"
  using issue_loop_upt[of num_threads ch evaluate m] by (auto simp: list_all_iff)

section \<open>The search state and the peak detector\<close>

text \<open>
  The fields of \<^verbatim>\<open>GetNative\<close> that the search reads or writes. \<open>src_width\<close> and
  \<open>src_height\<close> are \<^verbatim>\<open>self.src.width\<close> and \<^verbatim>\<open>self.src.height\<close>. \<open>resolutions\<close> holds
  scan indices (values of \<^verbatim>\<open>ratios.index\<close>), so natural numbers. The scaler, the output
  options, \<^verbatim>\<open>txt_output\<close> and \<^verbatim>\<open>filename\<close> are left out.
\<close>

record GetNative =
  src_width :: int
  src_height :: int
  ar :: real
  min_h :: int
  max_h :: int
  frames :: "int list"
  passes :: int
  steps :: int
  resolutions :: "nat list"

subsection \<open>\<^verbatim>\<open>GetNative.analyze_results\<close> (lines 343 to 378)\<close>

text \<open>
  Lines 344 to 348. \<^verbatim>\<open>current and last / current\<close> is \<^verbatim>\<open>current\<close> when it is zero
  and the quotient otherwise. The indices of the loop are within \<^verbatim>\<open>vals\<close>.
\<close>

definition compute_ratios :: "real list \<Rightarrow> real list" where
  "compute_ratios vals =
     0 # map (\<lambda>i. let last = vals ! (i - 1); current = vals ! i
                   in if current = 0 then current else last / current)
             [1..<length vals]"

text \<open>
  Lines 349 to 352: the ratios in descending order, the largest one, and up to five of
  those that pass the threshold. \<^verbatim>\<open>sorted_array[0]\<close> raises IndexError on an empty list.
\<close>

definition select_differences :: "real list \<Rightarrow> error + real list" where
  "select_differences ratios =
     (let sorted_array = rev (sort ratios)
      in if sorted_array = [] then Inl IndexError
         else let max_difference = sorted_array ! 0
              in Inr (take 5 (filter (\<lambda>s. s - 1 > (max_difference - 1) * 0.33) sorted_array)))"

text \<open>\<^verbatim>\<open>list.index\<close>: the first position of the value, ValueError when it is absent.\<close>

definition py_index :: "real list \<Rightarrow> real \<Rightarrow> error + nat" where
  "py_index xs x =
     (if x \<in> set xs then Inr (length (takeWhile (\<lambda>y. y \<noteq> x) xs)) else Inl ValueError)"

text \<open>
  Lines 354 to 361: the loop over \<^verbatim>\<open>differences\<close> with its inner \<^verbatim>\<open>for ... else\<close>, on
  \<^verbatim>\<open>self.resolutions\<close>. The list reached is returned also when \<^verbatim>\<open>index\<close> raises.
\<close>

fun dedup_loop :: "real list \<Rightarrow> real list \<Rightarrow> nat list \<Rightarrow> nat list \<times> error option" where
  "dedup_loop ratios [] res_list = (res_list, None)"
| "dedup_loop ratios (diff # rest) res_list =
     (case py_index ratios diff of
        Inl e \<Rightarrow> (res_list, Some e)
      | Inr current \<Rightarrow>
          dedup_loop ratios rest
            (if list_ex (\<lambda>res. int res - 20 < int current \<and> int current < int res + 20) res_list
             then res_list
             else res_list @ [current]))"

text \<open>
  \<^verbatim>\<open>np.array(ratios)[self.resolutions]\<close>: IndexError when an index is out of bounds
  (the indices are not negative); an empty index list gives an empty array.
\<close>

definition np_take :: "real list \<Rightarrow> nat list \<Rightarrow> error + real list" where
  "np_take a idx =
     (if list_all (\<lambda>i. i < length a) idx then Inr (map (\<lambda>i. a ! i) idx) else Inl IndexError)"

text \<open>\<^verbatim>\<open>np.argmax\<close>: the first position of the maximum, ValueError on an empty array.\<close>

definition np_argmax :: "real list \<Rightarrow> error + nat" where
  "np_argmax a =
     (if a = [] then Inl ValueError
      else Inr (length (takeWhile (\<lambda>y. y \<noteq> Max (set a)) a)))"

text \<open>
  The method: it returns the object with its \<^verbatim>\<open>resolutions\<close> as the call left them, and
  either the exception raised or the tuple \<^verbatim>\<open>(ratios, vals, bob, bob_resolution)\<close>
  (\<^verbatim>\<open>best_values\<close> is a string of the report). \<^verbatim>\<open>vals[bob_idx]\<close> raises IndexError past
  the end of \<^verbatim>\<open>vals\<close>.
\<close>

definition analyze_results ::
  "GetNative \<Rightarrow> real list \<Rightarrow> int \<Rightarrow> GetNative \<times> (error + (real list \<times> real list \<times> real \<times> int))" where
  "analyze_results self vals offset =
     (let ratios = compute_ratios vals in
      case select_differences ratios of
        Inl e \<Rightarrow> (self, Inl e)
      | Inr differences \<Rightarrow>
          (case dedup_loop ratios differences (resolutions self) of
             (res_list, Some e) \<Rightarrow> (self\<lparr>resolutions := res_list\<rparr>, Inl e)
           | (res_list, None) \<Rightarrow>
               (self\<lparr>resolutions := res_list\<rparr>,
                case np_take ratios res_list of
                  Inl e \<Rightarrow> Inl e
                | Inr picked \<Rightarrow>
                    (case np_argmax picked of
                       Inl e \<Rightarrow> Inl e
                     | Inr bob_idx \<Rightarrow>
                         if bob_idx < length vals
                         then Inr (ratios, vals, vals ! bob_idx,
                                   int (res_list ! bob_idx) * steps self + offset)
                         else Inl IndexError))))"

text \<open>
  The separation that the inner loop of lines 357 to 361 checks, for a whole list: no
  entry twice, and any two entries at least 20 scan positions apart.
\<close>

definition separated :: "nat list \<Rightarrow> bool" where
  "separated rs \<longleftrightarrow>
     distinct rs \<and> (\<forall>a \<in> set rs. \<forall>b \<in> set rs. a \<noteq> b \<longrightarrow> 20 \<le> \<bar>int a - int b\<bar>)"

text \<open>
  A sequence of calls on one object, each with its curve and offset, as \<^verbatim>\<open>run\<close> makes them;
  a call that raises leaves the object as it was at the raise.
\<close>

fun peak_calls :: "GetNative \<Rightarrow> (real list \<times> int) list \<Rightarrow> GetNative" where
  "peak_calls self [] = self"
| "peak_calls self ((vals, offset) # calls) = peak_calls (fst (analyze_results self vals offset)) calls"

text \<open>
  An object for the scenarios below: a 1920 by 1080 source scanned from 500 to 505 in
  steps of 1, nothing accumulated yet.
\<close>

definition scenario_self :: GetNative where
  "scenario_self =
     \<lparr>src_width = 1920, src_height = 1080, ar = 16 / 9, min_h = 500, max_h = 505,
      frames = [1], passes = 0, steps = 1, resolutions = []\<rparr>"

subsection \<open>Properties of the peak detector\<close>

lemma separated_append:
  assumes "separated rs" "\<not> list_ex (\<lambda>res. int res - 20 < int current \<and> int current < int res + 20) rs"
  shows "separated (rs @ [current])"
proof -
  from assms(2) have far: "\<forall>res \<in> set rs. 20 \<le> \<bar>int current - int res\<bar>"
    by (auto simp: list_ex_iff)
  then have "current \<notin> set rs" by fastforce
  moreover have "\<forall>res \<in> set rs. 20 \<le> \<bar>int res - int current\<bar>"
    using far by (simp add: abs_minus_commute)
  ultimately show ?thesis using assms(1) far by (auto simp: separated_def)
qed

lemma dedup_loop_separated:
  "separated rs \<Longrightarrow> separated (fst (dedup_loop ratios ds rs))"
proof (induction ds arbitrary: rs)
  case Nil
  then show ?case by simp
next
  case (Cons d ds)
  show ?case
  proof (cases "py_index ratios d")
    case (Inl e)
    with Cons.prems show ?thesis by simp
  next
    case (Inr current)
    show ?thesis
    proof (cases "list_ex (\<lambda>res. int res - 20 < int current \<and> int current < int res + 20) rs")
      case True
      with Inr Cons show ?thesis by simp
    next
      case False
      from separated_append[OF Cons.prems False] have "separated (rs @ [current])" .
      from Cons.IH[OF this] Inr False show ?thesis by simp
    qed
  qed
qed

lemma fst_analyze_results:
  "fst (analyze_results self vals offset) =
     (case select_differences (compute_ratios vals) of
        Inl e \<Rightarrow> self
      | Inr ds \<Rightarrow> self\<lparr>resolutions := fst (dedup_loop (compute_ratios vals) ds (resolutions self))\<rparr>)"
proof (cases "select_differences (compute_ratios vals)")
  case (Inl e)
  then show ?thesis by (simp add: analyze_results_def)
next
  case (Inr ds)
  obtain res_list err where d: "dedup_loop (compute_ratios vals) ds (resolutions self) = (res_list, err)"
    by (cases "dedup_loop (compute_ratios vals) ds (resolutions self)")
  show ?thesis
    by (cases err) (simp_all add: analyze_results_def Let_def Inr d)
qed

lemma analyze_results_separated:
  assumes "separated (resolutions self)"
  shows "separated (resolutions (fst (analyze_results self vals offset)))"
  using dedup_loop_separated[OF assms] assms
  by (simp add: fst_analyze_results split: sum.split)

lemma peak_calls_separated:
  "separated (resolutions self) \<Longrightarrow> separated (resolutions (peak_calls self calls))"
proof (induction calls arbitrary: self)
  case Nil
  then show ?case by simp
next
  case (Cons c calls)
  obtain vals offset where c: "c = (vals, offset)" by (cases c)
  from Cons.IH[OF analyze_results_separated[OF Cons.prems]] show ?case by (simp add: c)
qed


lemma first_index:
  "x \<in> set xs \<Longrightarrow>
     length (takeWhile (\<lambda>y. y \<noteq> x) xs) < length xs \<and> xs ! length (takeWhile (\<lambda>y. y \<noteq> x) xs) = x"
  by (induction xs) auto

lemma np_argmax_Inr:
  assumes "np_argmax a = Inr i"
  shows "i < length a \<and> a ! i = Max (set a)"
proof -
  from assms have ne: "a \<noteq> []" and i: "i = length (takeWhile (\<lambda>y. y \<noteq> Max (set a)) a)"
    by (auto simp: np_argmax_def split: if_splits)
  from ne have "Max (set a) \<in> set a" by simp
  from first_index[OF this] show ?thesis by (simp add: i)
qed

lemma np_argmax_nonempty: "a \<noteq> [] \<Longrightarrow> \<exists>i. np_argmax a = Inr i"
  by (simp add: np_argmax_def)

lemma length_compute_ratios: "length (compute_ratios vals) = max 1 (length vals)"
  by (auto simp: compute_ratios_def)

lemma sorted_le_last:
  "sorted xs \<Longrightarrow> x \<in> set xs \<Longrightarrow> x \<le> last xs"
  by (induction xs) auto

lemma select_differences_all_le_1:
  assumes "list_all (\<lambda>r. r \<le> 1) ratios" "ratios \<noteq> []"
  shows "select_differences ratios = Inr []"
proof -
  let ?sa = "rev (sort ratios)"
  have ne: "?sa \<noteq> []" using assms(2) by (metis length_0_conv length_rev length_sort)
  have mx: "?sa ! 0 = last (sort ratios)"
    using ne by (metis hd_conv_nth hd_rev)
  have "last (sort ratios) \<in> set ratios"
    using assms(2) by (metis last_in_set length_0_conv length_sort set_sort)
  with assms(1) have le1: "last (sort ratios) \<le> 1" by (simp add: list_all_iff)
  have "\<not> (s - 1 > (last (sort ratios) - 1) * 0.33)" if "s \<in> set ?sa" for s
  proof -
    from that have "s \<in> set (sort ratios)" by simp
    then have "s \<le> last (sort ratios)" using sorted_le_last[OF sorted_sort] by blast
    moreover have "last (sort ratios) - 1 \<le> (last (sort ratios) - 1) * 0.33"
      using le1 by simp
    ultimately show ?thesis by linarith
  qed
  then have "filter (\<lambda>s. s - 1 > (last (sort ratios) - 1) * 0.33) ?sa = []"
    by (simp add: filter_empty_conv)
  then show ?thesis using ne by (simp add: select_differences_def Let_def mx del: rev_is_Nil_conv)
qed

lemma length_distinct_bounded:
  assumes "distinct (rs :: nat list)" "list_all (\<lambda>r. r < n) rs"
  shows "length rs \<le> n"
proof -
  have "set rs \<subseteq> {..<n}" using assms(2) by (auto simp: list_all_iff)
  then have "card (set rs) \<le> card {..<n}" by (intro card_mono) auto
  then show ?thesis using assms(1) by (simp add: distinct_card)
qed

lemma analyze_results_no_peak:
  assumes "list_all (\<lambda>r. r \<le> 1) (compute_ratios vals)"
  shows "fst (analyze_results self vals offset) = self"
    and "resolutions self = [] \<Longrightarrow> snd (analyze_results self vals offset) = Inl ValueError"
    and "resolutions self \<noteq> [] \<Longrightarrow> distinct (resolutions self) \<Longrightarrow>
         list_all (\<lambda>r. r < length vals) (resolutions self) \<Longrightarrow>
         \<exists>bob_idx < length (resolutions self).
           snd (analyze_results self vals offset)
             = Inr (compute_ratios vals, vals, vals ! bob_idx,
                    int (resolutions self ! bob_idx) * steps self + offset)"
proof -
  have ne: "compute_ratios vals \<noteq> []" by (simp add: compute_ratios_def)
  note sd = select_differences_all_le_1[OF assms ne]
  show "fst (analyze_results self vals offset) = self"
    by (simp add: fst_analyze_results sd)
  show "snd (analyze_results self vals offset) = Inl ValueError" if "resolutions self = []"
    using that by (simp add: analyze_results_def sd Let_def np_take_def np_argmax_def)
  show "\<exists>bob_idx < length (resolutions self).
           snd (analyze_results self vals offset)
             = Inr (compute_ratios vals, vals, vals ! bob_idx,
                    int (resolutions self ! bob_idx) * steps self + offset)"
    if r: "resolutions self \<noteq> []" "distinct (resolutions self)"
          "list_all (\<lambda>r. r < length vals) (resolutions self)"
  proof -
    have "list_all (\<lambda>i. i < length (compute_ratios vals)) (resolutions self)"
      using r(3) by (auto simp: list_all_iff length_compute_ratios)
    then have tk: "np_take (compute_ratios vals) (resolutions self)
               = Inr (map (\<lambda>i. compute_ratios vals ! i) (resolutions self))"
      by (simp add: np_take_def)
    from np_argmax_nonempty[of "map (\<lambda>i. compute_ratios vals ! i) (resolutions self)"] r(1)
    obtain i where i: "np_argmax (map (\<lambda>i. compute_ratios vals ! i) (resolutions self)) = Inr i"
      by auto
    from np_argmax_Inr[OF i] have il: "i < length (resolutions self)" by simp
    with length_distinct_bounded[OF r(2,3)] have "i < length vals" by simp
    then have "snd (analyze_results self vals offset)
             = Inr (compute_ratios vals, vals, vals ! i,
                    int (resolutions self ! i) * steps self + offset)"
      by (simp add: analyze_results_def sd Let_def tk i)
    with il show ?thesis by blast
  qed
qed

text \<open>
  What a returning call reports: \<open>bob_idx\<close> is a position in the accumulated list, the
  entry there has the largest ratio among the entries, the resolution reported is that
  entry's, and the error reported is \<^verbatim>\<open>vals[bob_idx]\<close>.
\<close>

lemma analyze_results_best:
  assumes "analyze_results self vals offset = (self', Inr (ratios, vals', bob, bob_resolution))"
  shows "ratios = compute_ratios vals \<and> vals' = vals \<and>
         (\<exists>bob_idx < length (resolutions self').
            compute_ratios vals ! (resolutions self' ! bob_idx)
              = Max ((\<lambda>r. compute_ratios vals ! r) ` set (resolutions self'))
            \<and> bob = vals ! bob_idx
            \<and> bob_resolution = int (resolutions self' ! bob_idx) * steps self + offset)"
proof -
  from assms obtain ds where sd: "select_differences (compute_ratios vals) = Inr ds"
    by (cases "select_differences (compute_ratios vals)") (auto simp: analyze_results_def Let_def)
  obtain res_list err where d: "dedup_loop (compute_ratios vals) ds (resolutions self) = (res_list, err)"
    by (cases "dedup_loop (compute_ratios vals) ds (resolutions self)")
  from assms sd d have err: "err = None" and self': "self' = self\<lparr>resolutions := res_list\<rparr>"
    by (cases err; simp add: analyze_results_def Let_def)+
  from assms sd d err obtain picked where tk: "np_take (compute_ratios vals) res_list = Inr picked"
    by (cases "np_take (compute_ratios vals) res_list") (auto simp: analyze_results_def Let_def)
  then have picked: "picked = map (\<lambda>i. compute_ratios vals ! i) res_list"
    by (auto simp: np_take_def split: if_splits)
  from assms sd d err tk obtain i where am: "np_argmax picked = Inr i"
    by (cases "np_argmax picked") (auto simp: analyze_results_def Let_def)
  from assms sd d err tk am have res: "ratios = compute_ratios vals" "vals' = vals"
      "bob = vals ! i" "bob_resolution = int (res_list ! i) * steps self + offset"
    by (auto simp: analyze_results_def Let_def split: if_splits)
  from np_argmax_Inr[OF am] have i: "i < length res_list"
      "compute_ratios vals ! (res_list ! i) = Max ((\<lambda>r. compute_ratios vals ! r) ` set res_list)"
    by (auto simp: picked)
  show ?thesis using res i by (auto simp: self')
qed

lemma dedup_loop_appends:
  "\<exists>new. fst (dedup_loop ratios ds rs) = rs @ new"
proof (induction ds arbitrary: rs)
  case Nil
  then show ?case by simp
next
  case (Cons d ds)
  show ?case
  proof (cases "py_index ratios d")
    case (Inl e)
    then show ?thesis by simp
  next
    case (Inr current)
    show ?thesis
    proof (cases "list_ex (\<lambda>res. int res - 20 < int current \<and> int current < int res + 20) rs")
      case True
      with Inr Cons.IH[of rs] show ?thesis by simp
    next
      case False
      from Cons.IH[of "rs @ [current]"] obtain new
        where "fst (dedup_loop ratios ds (rs @ [current])) = rs @ [current] @ new" by auto
      with Inr False show ?thesis by simp
    qed
  qed
qed

text \<open>
  Claim C2. On the curve \<open>[1, 1, 1, 0.1, 1, 1]\<close> with step 1, offset 500 and nothing
  accumulated, the ratios are \<open>[0, 1, 1, 10, 0.1, 1]\<close>, the threshold is
  \<open>(10 - 1) * 0.33 = 2.97\<close>, the only ratio that passes is 10, found at index 3, the
  accumulated list becomes \<open>[3]\<close>, which maps to resolution 503, and the best of bests
  is 503.
\<close>

theorem scenario_peak_at_503:
  "compute_ratios [1, 1, 1, 1 / 10, 1, 1] = [0, 1, 1, 10, 1 / 10, 1]
   \<and> (10 - 1) * 0.33 = (2.97 :: real)
   \<and> select_differences [0, 1, 1, 10, 1 / 10, 1] = Inr [10]
   \<and> py_index [0, 1, 1, 10, 1 / 10, 1] 10 = Inr 3
   \<and> analyze_results (self\<lparr>steps := 1, resolutions := []\<rparr>) [1, 1, 1, 1 / 10, 1, 1] 500
       = (self\<lparr>steps := 1, resolutions := [3]\<rparr>,
          Inr ([0, 1, 1, 10, 1 / 10, 1], [1, 1, 1, 1 / 10, 1, 1], 1, 503))
   \<and> map (\<lambda>r. int r * 1 + 500) [3] = [503]"
  by (simp add: analyze_results_def compute_ratios_def select_differences_def py_index_def
        np_take_def np_argmax_def upt_rec Let_def)

text \<open>
  Claim C3. The best of bests is to be the accumulated index with the largest ratio, its
  resolution that index times the step plus the offset, and its error the element of the
  curve at that scan index. The first two hold (\<open>analyze_results_best\<close>). The error
  reported is \<^verbatim>\<open>vals[bob_idx]\<close>, with \<open>bob_idx\<close> the position in the accumulated list:
  on the curve of the scenario the index chosen is 3, at position 0 of the list, and the
  error reported is \<open>vals[0] = 1\<close>, not \<open>vals[3] = 0.1\<close>.
\<close>

theorem best_error_read_at_list_position:
  "analyze_results scenario_self [1, 1, 1, 1 / 10, 1, 1] 500
     = (scenario_self\<lparr>resolutions := [3]\<rparr>,
        Inr ([0, 1, 1, 10, 1 / 10, 1], [1, 1, 1, 1 / 10, 1, 1], [1, 1, 1, 1 / 10, 1, 1] ! 0, 503))
   \<and> [1, 1, 1, 1 / 10, 1, 1 :: real] ! 0 = 1
   \<and> [1, 1, 1, 1 / 10, 1, 1 :: real] ! 3 = 1 / 10"
  by (simp add: analyze_results_def compute_ratios_def select_differences_def py_index_def
        np_take_def np_argmax_def upt_rec Let_def scenario_self_def)

text \<open>
  Claim C4, as stated: with every ratio at most 1 the detector still returns a best of
  bests, also when nothing is accumulated at the start of the call. On the flat curve of
  six values 1 with nothing accumulated the call raises ValueError (\<^verbatim>\<open>np.argmax\<close> of an
  empty array).
\<close>

theorem flat_curve_raises:
  "list_all (\<lambda>r. r \<le> 1) (compute_ratios [1, 1, 1, 1, 1, 1])
   \<and> analyze_results scenario_self [1, 1, 1, 1, 1, 1] 500 = (scenario_self, Inl ValueError)"
  by (simp add: analyze_results_def compute_ratios_def select_differences_def
        np_take_def np_argmax_def upt_rec Let_def scenario_self_def)

text \<open>
  Claim C4, amended. With every ratio at most 1 the call admits no index and leaves the
  object as it was. With nothing accumulated it raises ValueError; with distinct
  accumulated indices within the curve it returns a best of bests chosen among them.
\<close>

theorem no_peak_outcome:
  assumes "list_all (\<lambda>r. r \<le> 1) (compute_ratios vals)"
  shows "fst (analyze_results self vals offset) = self
         \<and> (if resolutions self = []
            then snd (analyze_results self vals offset) = Inl ValueError
            else distinct (resolutions self)
                   \<and> list_all (\<lambda>r. r < length vals) (resolutions self)
                 \<longrightarrow> (\<exists>bob_idx < length (resolutions self).
                        snd (analyze_results self vals offset)
                          = Inr (compute_ratios vals, vals, vals ! bob_idx,
                                 int (resolutions self ! bob_idx) * steps self + offset)))"
  using analyze_results_no_peak[OF assms, of self offset] by simp

theorem no_peak_outcome_witness:
  "list_all (\<lambda>r. r \<le> 1) (compute_ratios [1, 1, 1, 1, 1, 1])
   \<and> fst (analyze_results (scenario_self\<lparr>resolutions := [3]\<rparr>) [1, 1, 1, 1, 1, 1] 500)
       = scenario_self\<lparr>resolutions := [3]\<rparr>
   \<and> snd (analyze_results (scenario_self\<lparr>resolutions := [3]\<rparr>) [1, 1, 1, 1, 1, 1] 500)
       = Inr ([0, 1, 1, 1, 1, 1], [1, 1, 1, 1, 1, 1], 1, 503)"
proof -
  have h: "list_all (\<lambda>r. r \<le> 1) (compute_ratios [1, 1, 1, 1, 1, 1])"
    by (simp add: compute_ratios_def upt_rec)
  have r: "compute_ratios [1, 1, 1, 1, 1, 1] = [0, 1, 1, 1, 1, 1]"
    by (simp add: compute_ratios_def upt_rec)
  from no_peak_outcome[OF h, of "scenario_self\<lparr>resolutions := [3]\<rparr>" 500] h r
  show ?thesis by (simp add: scenario_self_def)
qed

text \<open>
  Claim C5. After every call of the peak detector any two distinct entries of the
  accumulated list are at least 20 index positions apart: the list starts empty, a call
  only appends (\<open>dedup_loop_appends\<close>), and only an index that passed the check against
  every entry, so the separation holds after any sequence of calls on an object that had
  it before.
\<close>

theorem resolutions_stay_separated:
  "separated (resolutions self) \<Longrightarrow> separated (resolutions (peak_calls self calls))"
  by (rule peak_calls_separated)

theorem resolutions_stay_separated_witness:
  "separated (resolutions scenario_self)
   \<and> resolutions (peak_calls scenario_self
        [([1, 1 / 10, 1, 1, 1, 1, 1, 1, 1, 1, 1, 1, 1, 1, 1, 1, 1, 1, 1, 1, 1, 1 / 8, 1], 500)])
       = [1, 21]
   \<and> separated (resolutions (peak_calls scenario_self
        [([1, 1 / 10, 1, 1, 1, 1, 1, 1, 1, 1, 1, 1, 1, 1, 1, 1, 1, 1, 1, 1, 1, 1 / 8, 1], 500)]))"
proof -
  have h: "separated (resolutions scenario_self)"
    by (simp add: scenario_self_def separated_def)
  have r: "resolutions (peak_calls scenario_self
        [([1, 1 / 10, 1, 1, 1, 1, 1, 1, 1, 1, 1, 1, 1, 1, 1, 1, 1, 1, 1, 1, 1, 1 / 8, 1], 500)])
       = [1, 21]"
    by code_simp
  from resolutions_stay_separated[OF h] h r show ?thesis by blast
qed

section \<open>Floating-point arithmetic\<close>

text \<open>
  \<^verbatim>\<open>round\<close> on a float rounds to the nearest integer, a half going to the even one.
\<close>

definition py_round :: "real \<Rightarrow> int" where
  "py_round x =
     (let f = \<lfloor>x\<rfloor>; d = x - real_of_int f
      in if d < 1 / 2 then f else if d > 1 / 2 then f + 1 else if even f then f else f + 1)"

text \<open>
  A finite float64 is a real number with a significand of 53 bits. \<open>binade x\<close> is the
  exponent \<open>e\<close> with \<open>2 powi e \<le> \<bar>x\<bar> < 2 powi (e + 1)\<close>, and \<open>round64 x\<close> is the
  multiple of \<open>2 powi (binade x - 52)\<close> nearest to \<open>x\<close>, a tie going to the even
  multiple: the result of an IEEE 754 operation whose exact value is \<open>x\<close>, in the default
  rounding mode. \<open>py_float\<close> is the conversion of a Python int to a float, explicit
  (\<^verbatim>\<open>float(n)\<close>) or implied by an operation with a float.
\<close>

definition binade :: "real \<Rightarrow> int" where
  "binade x = \<lfloor>log 2 \<bar>x\<bar>\<rfloor>"

definition round64 :: "real \<Rightarrow> real" where
  "round64 x = (let u = 2 powi (binade x - 52) in real_of_int (py_round (x / u)) * u)"

definition py_float :: "int \<Rightarrow> real" where
  "py_float z = round64 (real_of_int z)"

subsection \<open>Properties of the rounding\<close>

lemma powr_powi_2: "2 powr real_of_int e = (2::real) powi e"
  by (rule powr_real_of_int') simp_all

lemma binade_bracket:
  assumes "x \<noteq> 0"
  shows "2 powi binade x \<le> \<bar>x\<bar> \<and> \<bar>x\<bar> < 2 powi (binade x + 1)"
proof -
  have pos: "0 < \<bar>x\<bar>" using assms by simp
  have "\<lfloor>log 2 \<bar>x\<bar>\<rfloor> = binade x" by (simp add: binade_def)
  then have "2 powr real_of_int (binade x) \<le> \<bar>x\<bar> \<and> \<bar>x\<bar> < 2 powr (real_of_int (binade x) + 1)"
    using floor_log_eq_powr_iff[OF pos, of 2 "binade x"] by simp
  moreover have "real_of_int (binade x) + 1 = real_of_int (binade x + 1)" by simp
  ultimately show ?thesis
    by (simp only: powr_powi_2)
qed

lemma binade_eqI:
  assumes "2 powi e \<le> \<bar>x\<bar>" "\<bar>x\<bar> < 2 powi (e + 1)"
  shows "binade x = e"
proof -
  have "(0::real) < 2 powi e" by simp
  with assms(1) have pos: "0 < \<bar>x\<bar>" by linarith
  have "real_of_int e + 1 = real_of_int (e + 1)" by simp
  then have "2 powr real_of_int e \<le> \<bar>x\<bar> \<and> \<bar>x\<bar> < 2 powr (real_of_int e + 1)"
    using assms by (simp only: powr_powi_2)
  then show ?thesis
    unfolding binade_def using floor_log_eq_powr_iff[OF pos, of 2 e] by simp
qed

lemma binade_scale:
  assumes "x \<noteq> 0"
  shows "binade (x * 2 powi j) = binade x + j"
proof (rule binade_eqI)
  have abs: "\<bar>x * 2 powi j\<bar> = \<bar>x\<bar> * 2 powi j" by (simp add: abs_mult)
  have p1: "(2::real) powi (binade x + j) = 2 powi binade x * 2 powi j"
    by (simp add: power_int_add)
  have p2: "(2::real) powi (binade x + j + 1) = 2 powi (binade x + 1) * 2 powi j"
    by (simp add: power_int_add)
  have pos: "(0::real) < 2 powi j" by simp
  from binade_bracket[OF assms] pos
  show "2 powi (binade x + j) \<le> \<bar>x * 2 powi j\<bar>"
    unfolding abs p1 by (intro mult_right_mono) auto
  from binade_bracket[OF assms] pos
  show "\<bar>x * 2 powi j\<bar> < 2 powi (binade x + j + 1)"
    unfolding abs p2 by (intro mult_strict_right_mono) auto
qed

lemma binade_half: "x \<noteq> 0 \<Longrightarrow> binade (x / 2) = binade x - 1"
  using binade_scale[of x "- 1"] by (simp add: power_int_minus field_simps)

lemma binade_double: "x \<noteq> 0 \<Longrightarrow> binade (x * 2) = binade x + 1"
  using binade_scale[of x 1] by simp

lemma binade_code [code]:
  "binade x = (if x = 0 then 0
               else if 2 \<le> \<bar>x\<bar> then binade (x / 2) + 1
               else if \<bar>x\<bar> < 1 then binade (x * 2) - 1
               else 0)"
proof (cases "x = 0")
  case True
  then show ?thesis by (simp add: binade_def log_def)
next
  case False
  have "binade x = 0" if "\<not> 2 \<le> \<bar>x\<bar>" "\<not> \<bar>x\<bar> < 1"
    using that by (intro binade_eqI) auto
  with False show ?thesis by (simp add: binade_half binade_double)
qed

lemma py_round_cases: "py_round x = \<lfloor>x\<rfloor> \<or> py_round x = \<lfloor>x\<rfloor> + 1"
  by (simp add: py_round_def Let_def)

lemma py_round_of_int [simp]: "py_round (real_of_int z) = z"
  by (simp add: py_round_def)

lemma py_round_mono:
  assumes "x \<le> y"
  shows "py_round x \<le> py_round y"
proof (cases "\<lfloor>x\<rfloor> = \<lfloor>y\<rfloor>")
  case False
  with assms have "\<lfloor>x\<rfloor> < \<lfloor>y\<rfloor>" using floor_mono[OF assms] by linarith
  then show ?thesis using py_round_cases[of x] py_round_cases[of y] by linarith
next
  case True
  with assms have "x - real_of_int \<lfloor>x\<rfloor> \<le> y - real_of_int \<lfloor>y\<rfloor>" by simp
  then show ?thesis using True by (auto simp: py_round_def Let_def)
qed


lemma round64_0 [simp]: "round64 0 = 0"
  by (simp add: round64_def py_round_def)

lemma round64_scale: "round64 (x * 2 powi j) = round64 x * 2 powi j"
proof (cases "x = 0")
  case True
  then show ?thesis by simp
next
  case False
  have u: "(2::real) powi (binade x + j - 52) = 2 powi (binade x - 52) * 2 powi j"
    by (simp add: power_int_add power_int_diff)
  show ?thesis
    by (simp add: round64_def binade_scale[OF False] u Let_def)
qed

lemma round64_pos_bounds:
  assumes "0 < x"
  shows "2 powi binade x \<le> round64 x \<and> round64 x \<le> 2 powi (binade x + 1)"
proof -
  let ?u = "(2::real) powi (binade x - 52)"
  have u: "0 < ?u" by simp
  from assms have nz: "x \<noteq> 0" by simp
  have e1: "(2::real) powi binade x = 2 ^ 52 * ?u" by (simp add: power_int_diff)
  have e2: "(2::real) powi (binade x + 1) = 2 ^ 53 * ?u" by (simp add: power_int_diff power_int_add)
  from binade_bracket[OF nz] assms have "2 ^ 52 * ?u \<le> x" "x < 2 ^ 53 * ?u"
    by (simp_all add: e1 e2)
  then have "real_of_int (2 ^ 52) \<le> x / ?u" "x / ?u \<le> real_of_int (2 ^ 53)"
    using u by (simp_all add: pos_le_divide_eq pos_divide_le_eq)
  then have "py_round (real_of_int (2 ^ 52)) \<le> py_round (x / ?u)"
            "py_round (x / ?u) \<le> py_round (real_of_int (2 ^ 53))"
    by (simp_all only: py_round_mono)
  then have "2 ^ 52 \<le> py_round (x / ?u)" "py_round (x / ?u) \<le> 2 ^ 53"
    by (simp_all only: py_round_of_int)
  then have "2 ^ 52 \<le> real_of_int (py_round (x / ?u))" "real_of_int (py_round (x / ?u)) \<le> 2 ^ 53"
    by (metis of_int_le_iff of_int_numeral of_int_power)+
  then have "2 ^ 52 * ?u \<le> real_of_int (py_round (x / ?u)) * ?u"
            "real_of_int (py_round (x / ?u)) * ?u \<le> 2 ^ 53 * ?u"
    using u by (simp_all add: mult_right_mono)
  then show ?thesis by (simp add: round64_def Let_def e1 e2)
qed

lemma round64_neg_bounds:
  assumes "x < 0"
  shows "- (2 powi (binade x + 1)) \<le> round64 x \<and> round64 x \<le> - (2 powi binade x)"
proof -
  let ?u = "(2::real) powi (binade x - 52)"
  have u: "0 < ?u" by simp
  from assms have nz: "x \<noteq> 0" by simp
  have e1: "(2::real) powi binade x = 2 ^ 52 * ?u" by (simp add: power_int_diff)
  have e2: "(2::real) powi (binade x + 1) = 2 ^ 53 * ?u" by (simp add: power_int_diff power_int_add)
  from binade_bracket[OF nz] assms have "2 ^ 52 * ?u \<le> - x" "- x < 2 ^ 53 * ?u"
    by (simp_all add: e1 e2)
  then have "x / ?u \<le> real_of_int (- (2 ^ 52))" "real_of_int (- (2 ^ 53)) \<le> x / ?u"
    using u by (simp_all add: pos_le_divide_eq pos_divide_le_eq)
  then have "py_round (x / ?u) \<le> py_round (real_of_int (- (2 ^ 52)))"
            "py_round (real_of_int (- (2 ^ 53))) \<le> py_round (x / ?u)"
    by (simp_all only: py_round_mono)
  then have "py_round (x / ?u) \<le> - (2 ^ 52)" "- (2 ^ 53) \<le> py_round (x / ?u)"
    by (simp_all only: py_round_of_int)
  then have "real_of_int (py_round (x / ?u)) \<le> - (2 ^ 52)" "- (2 ^ 53) \<le> real_of_int (py_round (x / ?u))"
    by (metis of_int_le_iff of_int_numeral of_int_power of_int_minus)+
  note b = this
  have u0: "0 \<le> ?u" by simp
  have "real_of_int (py_round (x / ?u)) * ?u \<le> - (2 ^ 52) * ?u"
    by (rule mult_right_mono[OF b(1) u0])
  moreover have "- (2 ^ 53) * ?u \<le> real_of_int (py_round (x / ?u)) * ?u"
    by (rule mult_right_mono[OF b(2) u0])
  ultimately show ?thesis
    unfolding round64_def Let_def e1 e2 by (simp only: mult_minus_left simp_thms)
qed

lemma round64_pos: "0 < x \<Longrightarrow> 0 < round64 x"
  using round64_pos_bounds[of x] by (smt (verit) zero_less_power_int)

lemma round64_neg: "x < 0 \<Longrightarrow> round64 x < 0"
  using round64_neg_bounds[of x] by (smt (verit) zero_less_power_int)

lemma round64_eq_0_iff [simp]: "round64 x = 0 \<longleftrightarrow> x = 0"
  using round64_pos[of x] round64_neg[of x] by (cases "x = 0"; cases "0 < x") auto







subsection \<open>Evaluation of the rounding on numerals\<close>

text \<open>
  Rules that evaluate \<open>binade\<close>, \<open>py_round\<close> and \<open>round64\<close> on closed rational
  numbers; they apply to numerals only, so that an argument is evaluated before it is
  rounded.
\<close>

lemma py_round_minus: "py_round (- x) = - py_round x"
proof (cases "x \<in> \<int>")
  case True
  then obtain z where "x = real_of_int z" by (auto elim: Ints_cases)
  then have "py_round (- x) = py_round (real_of_int (- z))" by simp
  also have "\<dots> = - z" by (rule py_round_of_int)
  finally show ?thesis using \<open>x = real_of_int z\<close> by simp
next
  case False
  then have ne: "real_of_int \<lfloor>x\<rfloor> \<noteq> x" by (metis Ints_of_int)
  have le: "real_of_int \<lfloor>x\<rfloor> \<le> x" and up: "x < real_of_int \<lfloor>x\<rfloor> + 1" by linarith+
  note fr = order.not_eq_order_implies_strict[OF ne le] up
  have f: "\<lfloor>- x\<rfloor> = - \<lfloor>x\<rfloor> - 1"
  proof (rule floor_unique)
    have "real_of_int (- \<lfloor>x\<rfloor> - 1) = - real_of_int \<lfloor>x\<rfloor> - 1" by simp
    with fr show "real_of_int (- \<lfloor>x\<rfloor> - 1) \<le> - x"
      and "- x < real_of_int (- \<lfloor>x\<rfloor> - 1) + 1" by linarith+
  qed
  have d: "- x - real_of_int (- \<lfloor>x\<rfloor> - 1) = 1 - (x - real_of_int \<lfloor>x\<rfloor>)" by simp
  show ?thesis
    unfolding py_round_def Let_def f d by (simp add: field_simps)
qed

lemma binade_minus: "binade (- x) = binade x"
  by (simp add: binade_def)

lemma round64_minus: "round64 (- x) = - round64 x"
  by (simp add: round64_def binade_minus py_round_minus Let_def)

lemma binade_step_up: "2 \<le> \<bar>x\<bar> \<Longrightarrow> binade x = binade (x / 2) + 1"
  by (subst binade_code) auto

lemma binade_step_down: "x \<noteq> 0 \<Longrightarrow> \<bar>x\<bar> < 1 \<Longrightarrow> binade x = binade (x * 2) - 1"
  by (subst binade_code) auto

lemma binade_unit: "1 \<le> \<bar>x\<bar> \<Longrightarrow> \<bar>x\<bar> < 2 \<Longrightarrow> binade x = 0"
  by (subst binade_code) auto

lemma binade_0: "binade 0 = 0"
  by (subst binade_code) auto

lemmas binade_eval =
  binade_0 binade_minus
  binade_unit[of 1] binade_unit[of "numeral a / numeral b"]
  binade_step_up[of "numeral a"] binade_step_up[of "numeral a / numeral b"]
  binade_step_down[of "numeral a / numeral b"] binade_step_down[of "1 / numeral b"]
  for a b

lemmas py_round_eval =
  py_round_minus py_round_of_int[of 0, simplified] py_round_of_int[of 1, simplified]
  py_round_of_int[of "numeral a", simplified]
  py_round_def[of "numeral a / numeral b"] py_round_def[of "1 / numeral b"]
  for a b

lemmas round64_eval =
  round64_0 round64_minus
  round64_def[of 1] round64_def[of "numeral a"]
  round64_def[of "numeral a / numeral b"] round64_def[of "1 / numeral b"]
  for a b

lemmas float_eval = py_float_def round64_eval binade_eval py_round_eval Let_def

section \<open>Configuration and frame selection (\<^verbatim>\<open>getnative\<close>, lines 440 to 487)\<close>

text \<open>
  The arguments that the search reads, under the names argparse gives them (with the
  prefix \<open>args_\<close>), and what \<^verbatim>\<open>getnative\<close> asks of its environment: whether the output
  directory is writable, whether the plugins are there, the source clip's size and
  length, and \<^verbatim>\<open>core.num_threads\<close>. \<open>descaler_found\<close> is False when
  \<^verbatim>\<open>_DefineScaler.check_input\<close> finds no descaler for the kernel.
\<close>

record args =
  args_fstart :: int
  args_fend :: "int option"
  args_fsamples :: int
  args_passes :: int
  args_ar :: real
  args_min_h :: int
  args_max_h :: int
  args_ub_thr :: int
  args_steps :: int
  args_img :: bool
  args_mask_out :: bool

record env =
  dir_writable :: bool
  imwri_found :: bool
  descale_plugin :: bool
  descaler_found :: bool
  num_frames :: int
  width :: int
  height :: int
  num_threads :: nat

text \<open>
  \<^verbatim>\<open>np.linspace(start, stop, num, dtype=int, endpoint=False)\<close>, as numpy computes it:
  ValueError for a negative \<open>num\<close>; otherwise, in float64, \<^verbatim>\<open>delta = stop - start\<close>,
  \<^verbatim>\<open>step = delta / num\<close>, and for each \<open>k < num\<close> the point \<^verbatim>\<open>k * step + start\<close>
  (\<^verbatim>\<open>k / num * delta + start\<close> when the step is zero), rounded down for the integer
  dtype. With \<open>num = 0\<close> there is no point and no step.
\<close>

definition linspace_point :: "int \<Rightarrow> int \<Rightarrow> int \<Rightarrow> nat \<Rightarrow> real" where
  "linspace_point start stop num k =
     (let delta = round64 (py_float stop - py_float start);
          step = round64 (delta / py_float num);
          y = (if step = 0 then round64 (round64 (py_float (int k) / py_float num) * delta)
               else round64 (py_float (int k) * step))
      in round64 (y + py_float start))"

definition np_linspace_int :: "int \<Rightarrow> int \<Rightarrow> int \<Rightarrow> error + int list" where
  "np_linspace_int start stop num =
     (if num < 0 then Inl ValueError
      else if num = 0 then Inr []
      else Inr (map (\<lambda>k. \<lfloor>linspace_point start stop num k\<rfloor>) [0..<nat num]))"

text \<open>Line 468: the frame selector, \<^verbatim>\<open>np.linspace(fstart, fend, fsamples + 1, ...)[1:]\<close>.\<close>

definition frame_selector :: "int \<Rightarrow> int \<Rightarrow> int \<Rightarrow> error + int list" where
  "frame_selector fstart fend fsamples =
     (case np_linspace_int fstart fend (fsamples + 1) of
        Inl e \<Rightarrow> Inl e
      | Inr points \<Rightarrow> Inr (drop 1 points))"

text \<open>
  Lines 443 to 487, up to the construction of the \<^verbatim>\<open>GetNative\<close> object, in the order of
  the source. \<^verbatim>\<open>src.width / src.height\<close> is the float quotient of two ints. The
  constructor builds the file name from \<^verbatim>\<open>self.frames[0]\<close>, which raises IndexError on
  an empty frame set. The kernel's name and the numbers in the messages are left out.
\<close>

definition getnative_setup :: "env \<Rightarrow> args \<Rightarrow> error + GetNative" where
  "getnative_setup e a =
     (if \<not> dir_writable e then Inl PermissionError
      else if (args_img a \<or> args_mask_out a) \<and> \<not> imwri_found e
        then Inl (GetnativeException ''imwri not found.'')
      else if descale_plugin e \<and> \<not> descaler_found e
        then Inl (GetnativeException ''descale: not a supported kernel.'')
      else if \<not> descale_plugin e then Inl (GetnativeException ''No descale found!'')
      else
        (case frame_selector (args_fstart a)
                (case args_fend a of None \<Rightarrow> num_frames e | Some fend \<Rightarrow> fend)
                (args_fsamples a) of
           Inl err \<Rightarrow> Inl err
         | Inr frame_list \<Rightarrow>
             if args_ar a = 0 \<and> height e = 0 then Inl ZeroDivisionError
             else
               let ar0 = (if args_ar a = 0
                          then round64 (real_of_int (width e) / real_of_int (height e))
                          else args_ar a);
                   min_h0 = (if args_min_h a < 0 then height e div 2 else args_min_h a);
                   max_h0 = (if args_max_h a < 0 then height e * 9 div 10 else args_max_h a)
               in if min_h0 \<ge> height e
                    then Inl (GetnativeException ''Input image is smaller min_h'')
                  else if min_h0 \<ge> max_h0
                    then Inl (GetnativeException ''min_h > max_h? Not processable'')
                  else if frame_list = [] then Inl IndexError
                  else Inr \<lparr>src_width = width e, src_height = height e, ar = ar0,
                            min_h = min_h0,
                            max_h = (if max_h0 > height e then height e else max_h0),
                            frames = frame_list, passes = args_passes a,
                            steps = args_steps a, resolutions = []\<rparr>))"


text \<open>Arguments and an environment for the closed statements below.\<close>

definition scenario_env :: env where
  "scenario_env =
     \<lparr>dir_writable = True, imwri_found = True, descale_plugin = True, descaler_found = True,
      num_frames = 200, width = 1920, height = 1080, num_threads = 1\<rparr>"

definition scenario_args :: args where
  "scenario_args =
     \<lparr>args_fstart = 0, args_fend = None, args_fsamples = 5, args_passes = 3, args_ar = 0,
      args_min_h = - 1, args_max_h = - 1, args_ub_thr = 10, args_steps = 1,
      args_img = False, args_mask_out = False\<rparr>"

text \<open>
  The checks of lines 443 to 484 that do not concern the frame parameters, all passing.
\<close>

definition setup_checks :: "env \<Rightarrow> args \<Rightarrow> bool" where
  "setup_checks e a \<longleftrightarrow>
     dir_writable e \<and> (args_img a \<or> args_mask_out a \<longrightarrow> imwri_found e)
     \<and> descale_plugin e \<and> descaler_found e
     \<and> \<not> (args_ar a = 0 \<and> height e = 0)
     \<and> (if args_min_h a < 0 then height e div 2 else args_min_h a) < height e
     \<and> (if args_min_h a < 0 then height e div 2 else args_min_h a)
         < (if args_max_h a < 0 then height e * 9 div 10 else args_max_h a)"

subsection \<open>Properties of the frame selector and of the setup\<close>



lemma frame_selector_points:
  assumes "0 < n"
  shows "frame_selector s e n
           = Inr (map (\<lambda>k. \<lfloor>linspace_point s e (n + 1) k\<rfloor>) [1..<nat n + 1])"
proof -
  have "nat (n + 1) = nat n + 1" using assms by simp
  moreover have "drop 1 (map f [0..<nat n + 1]) = map f [1..<nat n + 1]" for f :: "nat \<Rightarrow> int"
    by (simp add: drop_map del: upt_Suc)
  ultimately show ?thesis
    using assms by (simp add: frame_selector_def np_linspace_int_def del: upt_Suc)
qed












text \<open>
  Claim C7, as stated: a run with sample count \<open>n \<le> 0\<close> or with \<open>start \<ge> end\<close> fails
  with a configuration error before any scan. With start 100, end 50 and four samples
  nothing is raised: the object is built with the frames \<open>[90, 80, 70, 60]\<close> and
  \<^verbatim>\<open>run\<close> is entered. Its aspect ratio is the float nearest to \<open>16 / 9\<close>.
\<close>

theorem reversed_range_is_accepted:
  "getnative_setup scenario_env
     (scenario_args\<lparr>args_fstart := 100, args_fend := Some 50, args_fsamples := 4\<rparr>)
   = Inr \<lparr>src_width = 1920, src_height = 1080, ar = 2001599834386887 / 2 ^ 50,
          min_h = 540, max_h = 972,
          frames = [90, 80, 70, 60], passes = 3, steps = 1, resolutions = []\<rparr>"
  by (simp add: getnative_setup_def frame_selector_def np_linspace_int_def linspace_point_def
        float_eval scenario_env_def scenario_args_def upt_rec)

text \<open>
  Claim C7, amended. With a sample count \<open>n \<le> 0\<close> the setup raises, so no scan runs:
  when the other checks pass it is ValueError of \<^verbatim>\<open>np.linspace\<close> for \<open>n < -1\<close> and
  IndexError on the empty frame set otherwise. The frame range is not checked: with
  \<open>n > 0\<close> and the other checks passing the object is built with \<open>n\<close> frames, whatever
  start and end are.
\<close>

theorem sample_count_in_setup:
  "(args_fsamples a \<le> 0 \<longrightarrow>
      (\<exists>err. getnative_setup e a = Inl err
         \<and> (setup_checks e a \<longrightarrow>
              err = (if args_fsamples a < - 1 then ValueError else IndexError))))
   \<and> (0 < args_fsamples a \<and> setup_checks e a \<longrightarrow>
        (\<exists>self. getnative_setup e a = Inr self
           \<and> length (frames self) = nat (args_fsamples a)))"
proof (intro conjI impI)
  assume n: "args_fsamples a \<le> 0"
  let ?fe = "case args_fend a of None \<Rightarrow> num_frames e | Some fend \<Rightarrow> fend"
  have fs: "frame_selector (args_fstart a) ?fe (args_fsamples a)
              = (if args_fsamples a < - 1 then Inl ValueError else Inr [])"
    using n by (auto simp: frame_selector_def np_linspace_int_def drop_map)
  show "\<exists>err. getnative_setup e a = Inl err
         \<and> (setup_checks e a \<longrightarrow>
              err = (if args_fsamples a < - 1 then ValueError else IndexError))"
    by (auto simp: getnative_setup_def fs Let_def setup_checks_def)
next
  assume n: "0 < args_fsamples a \<and> setup_checks e a"
  let ?fe = "case args_fend a of None \<Rightarrow> num_frames e | Some fend \<Rightarrow> fend"
  let ?fs = "map (\<lambda>k. \<lfloor>linspace_point (args_fstart a) ?fe (args_fsamples a + 1) k\<rfloor>)
                 [1..<nat (args_fsamples a) + 1]"
  from n have fs: "frame_selector (args_fstart a) ?fe (args_fsamples a) = Inr ?fs"
    by (intro frame_selector_points) simp
  have len: "length ?fs = nat (args_fsamples a)" by (simp del: upt_Suc)
  with n have ne: "?fs \<noteq> []" by (metis length_0_conv nat_0_iff not_less)
  show "\<exists>self. getnative_setup e a = Inr self
           \<and> length (frames self) = nat (args_fsamples a)"
    using n ne len unfolding getnative_setup_def fs setup_checks_def
    by (auto simp: Let_def simp del: upt_Suc)
qed

theorem sample_count_in_setup_witness:
  "args_fsamples (scenario_args\<lparr>args_fsamples := 0\<rparr>) \<le> 0
   \<and> setup_checks scenario_env (scenario_args\<lparr>args_fsamples := 0\<rparr>)
   \<and> getnative_setup scenario_env (scenario_args\<lparr>args_fsamples := 0\<rparr>) = Inl IndexError
   \<and> 0 < args_fsamples scenario_args \<and> setup_checks scenario_env scenario_args
   \<and> (\<exists>self. getnative_setup scenario_env scenario_args = Inr self
         \<and> length (frames self) = 5)"
proof -
  have c0: "setup_checks scenario_env (scenario_args\<lparr>args_fsamples := 0\<rparr>)"
    and c1: "setup_checks scenario_env scenario_args"
    by (simp_all add: setup_checks_def scenario_env_def scenario_args_def)
  have n0: "args_fsamples (scenario_args\<lparr>args_fsamples := 0\<rparr>) \<le> 0"
    and n1: "0 < args_fsamples scenario_args" "nat (args_fsamples scenario_args) = 5"
    by (simp_all add: scenario_args_def)
  from sample_count_in_setup[of "scenario_args\<lparr>args_fsamples := 0\<rparr>" scenario_env]
       sample_count_in_setup[of scenario_args scenario_env] c0 c1 n0 n1
  show ?thesis by auto
qed

end
